theory Spec2Isabelle
  imports Complex_Main "HOL-Library.Word"
begin

unbundle bit_operations_syntax

section \<open>The Howl streaming client (howl/client/howl\_client.py)\<close>

text \<open>
  The class \<open>HowlClient\<close> is modelled as a record of its attributes, its methods as
  functions that take the object state and return the outcome together with the new
  state. An exception is the left summand of the outcome; the state that is returned
  with it is the state the object is left in when the exception propagates, since
  Python does not roll attribute assignments back.
\<close>

subsection \<open>Data\<close>

type_synonym byte = "8 word"

text \<open>A Python \<open>bytes\<close> value: one audio chunk, or a joined window.\<close>

type_synonym bytes = "byte list"

datatype error =
    AttributeError string
  | ValueError string
  | TypeError string
  | KeyError nat
  | OSError string
  | RuntimeError string

datatype pa_flag = PaContinue | PaComplete | PaAbort

datatype sample_format = PaFloat32 | PaInt32 | PaInt24 | PaInt16 | PaInt8 | PaUInt8

datatype torch_device = Cpu | Cuda int

text \<open>
  \<open>last_data\<close> starts as \<open>np.zeros(chunk_size)\<close> and is overwritten with the most
  recent chunk by every callback.
\<close>

datatype last_seen = Np_zeros int | In_data bytes

text \<open>
  The inference engine is an object of the package \<open>howl.model.inference\<close>; the client
  uses its method \<open>infer\<close>, which may change the engine's own state and may raise, and
  reads its attribute \<open>sequence\<close>.
\<close>

record 'e inference_engine =
  eng_state :: 'e
  eng_infer :: "real list \<Rightarrow> 'e \<Rightarrow> (error + bool) \<times> 'e"
  eng_sequence :: "'e \<Rightarrow> nat list"

text \<open>The inference context: the client reads \<open>ctx.vocab[x]\<close> only.\<close>

record inference_context =
  vocab :: "nat \<rightharpoonup> string"

record device_info =
  dev_name :: string

text \<open>The keyword arguments of \<open>PyAudio.open\<close> that \<open>start\<close> passes.\<close>

record stream_config =
  sc_format :: sample_format
  sc_channels :: nat
  sc_rate :: nat
  sc_input :: bool
  sc_input_device_index :: nat
  sc_frames_per_buffer :: int

text \<open>
  The \<open>pyaudio.PyAudio\<close> object: the device table it enumerates, and whether opening a
  stream with a given configuration raises.
\<close>

record pyaudio =
  get_device_count :: nat
  get_device_info_by_index :: "nat \<Rightarrow> device_info"
  open_raises :: "stream_config \<Rightarrow> error option"

text \<open>
  Calls that leave the client, in the order they are made. The trace is an observation
  of the run, not an attribute of the object.
\<close>

datatype event =
    Ev_infer "real list"
  | Ev_listener nat "nat list"
  | Ev_get_device_count
  | Ev_get_device_info nat
  | Ev_open stream_config
  | Ev_start_stream

text \<open>
  A listener is a callable that receives the token sequence. It acts on a state of its
  own (\<open>'w\<close>) and may raise; it does not reach into the client or the engine.
\<close>

type_synonym 'w listener = "nat list \<Rightarrow> 'w \<Rightarrow> (error + unit) \<times> 'w"

text \<open>
  The attributes of \<open>HowlClient\<close>, followed by the three parts of the environment its
  methods touch: the state the listeners act on, whether the root logger is enabled
  for level INFO, and the trace of outgoing calls.
\<close>

record ('e, 'w) client =
  listeners :: "'w listener list"
  chunk_size :: int
  device :: torch_device
  engine :: "'e inference_engine option"
  ctx :: "inference_context option"
  audio :: pyaudio
  audio_buf :: "bytes list"
  audio_buf_len :: nat
  audio_float_size :: int
  last_data :: last_seen
  stream :: "stream_config option"
  world :: 'w
  info_enabled :: bool
  trace :: "event list"

subsection \<open>Construction and registration\<close>

definition get_device :: "int \<Rightarrow> torch_device" where
  "get_device d = (if d = - 1 then Cpu else Cuda d)"

text \<open>
  The attribute values \<open>__init__\<close> assigns. The last four arguments are the environment:
  the audio subsystem, the listeners' state and the logging level.
\<close>

definition init ::
  "'e inference_engine option \<Rightarrow> inference_context option \<Rightarrow> int \<Rightarrow> int \<Rightarrow>
   pyaudio \<Rightarrow> 'w \<Rightarrow> bool \<Rightarrow> ('e, 'w) client" where
  "init eng cx dev csize pa w lg =
     \<lparr> listeners = [], chunk_size = csize, device = get_device dev,
       engine = eng, ctx = cx, audio = pa,
       audio_buf = [], audio_buf_len = 16, audio_float_size = 32767,
       last_data = Np_zeros csize, stream = None,
       world = w, info_enabled = lg, trace = [] \<rparr>"

definition add_listener :: "'w listener \<Rightarrow> ('e, 'w) client \<Rightarrow> ('e, 'w) client" where
  "add_listener lis st = st\<lparr>listeners := listeners st @ [lis]\<rparr>"

subsection \<open>The overlap buffer: lines 64 to 70 of \<open>_on_audio\<close>\<close>

text \<open>
  The chunk is cached and appended; unless the buffer now holds exactly
  \<open>_audio_buf_len\<close> chunks the callback returns. Otherwise the chunks are joined into
  the window and the buffer drops its first two chunks. \<open>push\<close> returns the window,
  if there is one, and the state at that point.
\<close>

definition push :: "bytes \<Rightarrow> ('e, 'w) client \<Rightarrow> bytes option \<times> ('e, 'w) client" where
  "push in_data st =
     (let st1 = st\<lparr>last_data := In_data in_data\<rparr>;
          st2 = st1\<lparr>audio_buf := audio_buf st1 @ [in_data]\<rparr>
      in if length (audio_buf st2) \<noteq> audio_buf_len st2 then (None, st2)
         else (Some (concat (audio_buf st2)),
               st2\<lparr>audio_buf := drop 2 (audio_buf st2)\<rparr>))"

text \<open>A sequence of pushes: the outcome of each, and the final state.\<close>

fun run_pushes ::
  "bytes list \<Rightarrow> ('e, 'w) client \<Rightarrow> bytes option list \<times> ('e, 'w) client" where
  "run_pushes [] st = ([], st)"
| "run_pushes (f # fs) st =
     (case push f st of (w, st1) \<Rightarrow>
        (case run_pushes fs st1 of (ws, st2) \<Rightarrow> (w # ws, st2)))"

subsection \<open>The normalizer: \<open>_normalize_audio\<close>\<close>

text \<open>
  \<open>np.frombuffer(audio_data, dtype=np.int16)\<close> raises \<open>ValueError\<close> when the number of
  bytes is odd, and otherwise reads each pair of bytes as one 16-bit integer, low byte
  first (the byte order of the machines the client runs on).
\<close>

fun int16_pairs :: "bytes \<Rightarrow> 16 word list" where
  "int16_pairs (lo # hi # bs) = word_cat hi lo # int16_pairs bs"
| "int16_pairs bs = []"

definition frombuffer_int16 :: "bytes \<Rightarrow> error + 16 word list" where
  "frombuffer_int16 bs =
     (if length bs mod 2 \<noteq> 0
      then Inl (ValueError ''buffer size must be a multiple of element size'')
      else Inr (int16_pairs bs))"

text \<open>
  \<open>.astype(np.float)\<close> reads every sample as a signed number and converts it, exactly,
  to a double; the division by \<open>_audio_float_size\<close> (32767 in every client: the
  constructor sets it and nothing reassigns it) is the quotient of the two numbers.
  Samples are modelled as reals, that is, the division is exact.
\<close>

definition normalize_audio :: "('e, 'w) client \<Rightarrow> bytes \<Rightarrow> error + real list" where
  "normalize_audio st audio_data =
     (case frombuffer_int16 audio_data of
        Inl e \<Rightarrow> Inl e
      | Inr arr \<Rightarrow>
          Inr (map (\<lambda>x. real_of_int (sint x) / real_of_int (audio_float_size st)) arr))"

subsection \<open>Detection and dispatch: lines 71 to 81 of \<open>_on_audio\<close>\<close>

text \<open>
  The generator \<open>self.ctx.vocab[x] for x in self.engine.sequence\<close>: the context is read
  once per token, so a missing context raises only when there is a token to look up; a
  token without an entry raises \<open>KeyError\<close>. The joined, title-cased phrase goes nowhere
  but into the log call, so only the words are kept.
\<close>

fun lookup_words :: "inference_context option \<Rightarrow> nat list \<Rightarrow> error + string list" where
  "lookup_words cx [] = Inr []"
| "lookup_words cx (x # xs) =
     (case cx of
        None \<Rightarrow> Inl (AttributeError ''NoneType object has no attribute vocab'')
      | Some c \<Rightarrow>
          (case vocab c x of
             None \<Rightarrow> Inl (KeyError x)
           | Some w \<Rightarrow>
               (case lookup_words cx xs of
                  Inl e \<Rightarrow> Inl e
                | Inr ws \<Rightarrow> Inr (w # ws))))"

text \<open>
  \<open>logging.info(msg, end=...)\<close>: the root logger's \<open>info\<close> accepts any keyword argument
  and does nothing when level INFO is disabled (the default level is WARNING). When it
  is enabled the keyword arguments are passed on to \<open>Logger._log\<close>, which has no
  parameter \<open>end\<close>, and the call raises \<open>TypeError\<close>.
\<close>

definition logging_info_end :: "('e, 'w) client \<Rightarrow> error option" where
  "logging_info_end st =
     (if info_enabled st
      then Some (TypeError ''_log() got an unexpected keyword argument end'')
      else None)"

text \<open>
  The loop \<open>for lis in self.listeners: lis(self.engine.sequence)\<close>. The first argument
  counts the listeners already passed, so that the trace names each call by the
  listener's position in \<open>self.listeners\<close>. A listener that raises ends the loop.
\<close>

fun call_listeners ::
  "nat \<Rightarrow> 'w listener list \<Rightarrow> 'e inference_engine \<Rightarrow> ('e, 'w) client \<Rightarrow>
   (error + unit) \<times> ('e, 'w) client" where
  "call_listeners i [] eng st = (Inr (), st)"
| "call_listeners i (lis # rest) eng st =
     (let sq = eng_sequence eng (eng_state eng);
          st1 = st\<lparr>trace := trace st @ [Ev_listener i sq]\<rparr>
      in case lis sq (world st1) of
           (Inl e, w) \<Rightarrow> (Inl e, st1\<lparr>world := w\<rparr>)
         | (Inr u, w) \<Rightarrow> call_listeners (Suc i) rest eng (st1\<lparr>world := w\<rparr>))"

text \<open>
  Lines 71 to 81, given the window. The conversion of the array to a tensor on
  \<open>self.device\<close> is the identity of the model.
\<close>

definition detect :: "bytes \<Rightarrow> ('e, 'w) client \<Rightarrow> (error + unit) \<times> ('e, 'w) client" where
  "detect audio_data st =
     (case normalize_audio st audio_data of
        Inl e \<Rightarrow> (Inl e, st)
      | Inr arr \<Rightarrow>
          (case engine st of
             None \<Rightarrow> (Inl (AttributeError ''NoneType object has no attribute infer''), st)
           | Some eng \<Rightarrow>
               (let st1 = st\<lparr>trace := trace st @ [Ev_infer arr]\<rparr> in
                case eng_infer eng arr (eng_state eng) of
                  (Inl e, s) \<Rightarrow> (Inl e, st1\<lparr>engine := Some (eng\<lparr>eng_state := s\<rparr>)\<rparr>)
                | (Inr detected, s) \<Rightarrow>
                    (let eng1 = eng\<lparr>eng_state := s\<rparr>;
                         st2 = st1\<lparr>engine := Some eng1\<rparr>
                     in if detected then
                          (case lookup_words (ctx st2) (eng_sequence eng1 (eng_state eng1)) of
                             Inl e \<Rightarrow> (Inl e, st2)
                           | Inr phrase \<Rightarrow>
                               (case logging_info_end st2 of
                                  Some e \<Rightarrow> (Inl e, st2)
                                | None \<Rightarrow> call_listeners 0 (listeners st2) eng1 st2))
                        else (Inr (), st2)))))"

subsection \<open>The frame callback \<open>_on_audio\<close>\<close>

definition on_audio ::
  "bytes \<Rightarrow> ('e, 'w) client \<Rightarrow> (error + bytes \<times> pa_flag) \<times> ('e, 'w) client" where
  "on_audio in_data st =
     (let data_ok = (in_data, PaContinue) in
      case push in_data st of
        (None, st1) \<Rightarrow> (Inr data_ok, st1)
      | (Some audio_data, st1) \<Rightarrow>
          (case detect audio_data st1 of
             (Inl e, st2) \<Rightarrow> (Inl e, st2)
           | (Inr u, st2) \<Rightarrow> (Inr data_ok, st2)))"

text \<open>
  A sequence of callbacks on the same client. An exception that leaves one callback
  does not undo what it did to the object, so the next callback finds that state.
\<close>

fun run_audio :: "bytes list \<Rightarrow> ('e, 'w) client \<Rightarrow> ('e, 'w) client" where
  "run_audio [] st = st"
| "run_audio (f # fs) st = run_audio fs (snd (on_audio f st))"

subsection \<open>\<open>start\<close>\<close>

text \<open>
  The loop over \<open>range(self._audio.get_device_count())\<close> with its \<open>break\<close>: the third
  argument is \<open>chosen_idx\<close>.
\<close>

fun choose_device :: "pyaudio \<Rightarrow> nat list \<Rightarrow> nat \<Rightarrow> event list \<Rightarrow> nat \<times> event list" where
  "choose_device pa [] chosen_idx tr = (chosen_idx, tr)"
| "choose_device pa (idx # rest) chosen_idx tr =
     (let tr1 = tr @ [Ev_get_device_info idx];
          info = get_device_info_by_index pa idx
      in if dev_name info = ''pulse'' then (idx, tr1)
         else choose_device pa rest chosen_idx tr1)"

definition start :: "('e, 'w) client \<Rightarrow> (error + unit) \<times> ('e, 'w) client" where
  "start st =
     (if engine st = None then
        (Inl (AttributeError
           ''Please provide an InferenceEngine or initialize using from_pretrained.''), st)
      else if ctx st = None then
        (Inl (AttributeError
           ''Please provide an InferenceContext or initialize using from_pretrained.''), st)
      else
        (let tr0 = trace st @ [Ev_get_device_count];
             (chosen_idx, tr1) =
               choose_device (audio st) [0 ..< get_device_count (audio st)] 0 tr0;
             cfg = \<lparr> sc_format = PaInt16, sc_channels = 1, sc_rate = 16000,
                     sc_input = True, sc_input_device_index = chosen_idx,
                     sc_frames_per_buffer = chunk_size st \<rparr>;
             tr2 = tr1 @ [Ev_open cfg]
         in case open_raises (audio st) cfg of
              Some e \<Rightarrow> (Inl e, st\<lparr>trace := tr2\<rparr>)
            | None \<Rightarrow> (Inr (), st\<lparr>stream := Some cfg, trace := tr2 @ [Ev_start_stream]\<rparr>)))"

subsection \<open>Observations and test data\<close>

text \<open>
  The number of chunks the buffer holds after \<open>n\<close> pushes into an empty buffer of
  depth 16: it fills up to 15, and from the 16th push on it holds 14 after an even
  push and 15 after an odd one.
\<close>

definition held :: "nat \<Rightarrow> nat" where
  "held n = (if n < 16 then n else 14 + n mod 2)"

text \<open>The streams a trace opens, and the listener calls it makes, in order.\<close>

fun opens :: "event list \<Rightarrow> stream_config list" where
  "opens [] = []"
| "opens (Ev_open c # es) = c # opens es"
| "opens (e # es) = opens es"

fun listener_calls :: "event list \<Rightarrow> (nat \<times> nat list) list" where
  "listener_calls [] = []"
| "listener_calls (Ev_listener i sq # es) = (i, sq) # listener_calls es"
| "listener_calls (e # es) = listener_calls es"

fun device_io :: "event list \<Rightarrow> event list" where
  "device_io [] = []"
| "device_io (Ev_infer x # es) = device_io es"
| "device_io (Ev_listener i sq # es) = device_io es"
| "device_io (e # es) = e # device_io es"

text \<open>A chunk of one sample, whose low byte is \<open>n\<close>.\<close>

definition chunk :: "nat \<Rightarrow> bytes" where
  "chunk n = [of_nat n, 0]"

text \<open>An audio subsystem with three devices, the second and third named pulse.\<close>

definition three_devices :: pyaudio where
  "three_devices =
     \<lparr> get_device_count = 3,
       get_device_info_by_index =
         (\<lambda>i. \<lparr> dev_name = (if i = 0 then ''default'' else ''pulse'') \<rparr>),
       open_raises = (\<lambda>c. None) \<rparr>"

text \<open>
  An engine that counts the windows it has seen, reports a detection on each, and
  whose sequence is the two tokens 1, 0; a vocabulary for them.
\<close>

definition hey_engine :: "nat inference_engine" where
  "hey_engine =
     \<lparr> eng_state = 0,
       eng_infer = (\<lambda>x s. (Inr True, Suc s)),
       eng_sequence = (\<lambda>s. [1, 0]) \<rparr>"

definition deaf_engine :: "nat inference_engine" where
  "deaf_engine = hey_engine\<lparr>eng_infer := (\<lambda>x s. (Inr False, Suc s))\<rparr>"

definition broken_engine :: "nat inference_engine" where
  "broken_engine =
     hey_engine\<lparr>eng_infer := (\<lambda>x s. (Inl (RuntimeError ''inference failed''), s))\<rparr>"

definition hey_ctx :: inference_context where
  "hey_ctx = \<lparr> vocab = [0 \<mapsto> ''fox'', 1 \<mapsto> ''hey''] \<rparr>"

text \<open>A listener that records its position and its argument.\<close>

definition recorder :: "nat \<Rightarrow> (nat \<times> nat list) list listener" where
  "recorder i sq w = (Inr (), w @ [(i, sq)])"

text \<open>
  A client as the constructor leaves it, the same with two recorders registered, and
  the latter after fifteen chunks, with level INFO disabled and enabled.
\<close>

definition fresh :: "(nat, (nat \<times> nat list) list) client" where
  "fresh = init (Some hey_engine) (Some hey_ctx) (- 1) 1 three_devices [] False"

definition listening :: "(nat, (nat \<times> nat list) list) client" where
  "listening = add_listener (recorder 1) (add_listener (recorder 0) fresh)"

definition primed :: "(nat, (nat \<times> nat list) list) client" where
  "primed = listening\<lparr>last_data := In_data (chunk 14), audio_buf := map chunk [0 ..< 15]\<rparr>"

definition primed_info :: "(nat, (nat \<times> nat list) list) client" where
  "primed_info = primed\<lparr>info_enabled := True\<rparr>"

text \<open>
  The primed client with an engine whose \<open>infer\<close> raises, and with one that never
  detects; a client without engine and context, and one without context only.
\<close>

definition primed_broken :: "(nat, (nat \<times> nat list) list) client" where
  "primed_broken = primed\<lparr>engine := Some broken_engine\<rparr>"

definition primed_deaf :: "(nat, (nat \<times> nat list) list) client" where
  "primed_deaf = primed\<lparr>engine := Some deaf_engine\<rparr>"

definition unconfigured :: "(nat, (nat \<times> nat list) list) client" where
  "unconfigured = init None None (- 1) 500 three_devices [] False"

definition no_context :: "(nat, (nat \<times> nat list) list) client" where
  "no_context = init (Some hey_engine) None (- 1) 500 three_devices [] False"

text \<open>An audio subsystem without a device named pulse, and a client on it.\<close>

definition two_devices :: pyaudio where
  "two_devices =
     \<lparr> get_device_count = 2,
       get_device_info_by_index =
         (\<lambda>i. \<lparr> dev_name = (if i = 0 then ''default'' else ''sysdefault'') \<rparr>),
       open_raises = (\<lambda>c. None) \<rparr>"

definition fresh_plain :: "(nat, (nat \<times> nat list) list) client" where
  "fresh_plain = init (Some hey_engine) (Some hey_ctx) (- 1) 500 two_devices [] False"

section \<open>Properties\<close>

subsection \<open>The overlap buffer: the state after a sequence of pushes\<close>

lemma push_eq:
  "push f st =
     (if Suc (length (audio_buf st)) \<noteq> audio_buf_len st
      then (None, st\<lparr>last_data := In_data f, audio_buf := audio_buf st @ [f]\<rparr>)
      else (Some (concat (audio_buf st @ [f])),
            st\<lparr>last_data := In_data f, audio_buf := drop 2 (audio_buf st @ [f])\<rparr>))"
  by (simp add: push_def Let_def)

lemma run_pushes_Cons:
  "run_pushes (f # fs) st =
     (fst (push f st) # fst (run_pushes fs (snd (push f st))),
      snd (run_pushes fs (snd (push f st))))"
  by (simp split: prod.splits)

lemma run_pushes_append:
  "run_pushes (xs @ ys) st =
     (case run_pushes xs st of (ws, st1) \<Rightarrow>
        (case run_pushes ys st1 of (vs, st2) \<Rightarrow> (ws @ vs, st2)))"
  by (induction xs arbitrary: st) (auto split: prod.splits)

lemma run_pushes_snoc:
  "run_pushes (fs @ [f]) st =
     (case run_pushes fs st of (ws, st1) \<Rightarrow>
        (case push f st1 of (w, st2) \<Rightarrow> (ws @ [w], st2)))"
  by (simp add: run_pushes_append split: prod.splits)

lemma push_buf_len: "audio_buf_len (snd (push f st)) = audio_buf_len st"
  by (simp add: push_eq)

lemma run_pushes_buf_len: "audio_buf_len (snd (run_pushes fs st)) = audio_buf_len st"
proof (induction fs arbitrary: st)
  case Nil
  show ?case by simp
next
  case (Cons f fs)
  have "audio_buf_len (snd (run_pushes fs (snd (push f st)))) = audio_buf_len st"
    using Cons.IH [of "snd (push f st)"] by (simp add: push_buf_len)
  then show ?case by (simp only: run_pushes_Cons snd_conv)
qed

lemma run_pushes_length: "length (fst (run_pushes fs st)) = length fs"
  by (induction fs arbitrary: st) (simp_all only: run_pushes_Cons run_pushes.simps fst_conv list.size)

lemma held_le: "held n \<le> n"
  unfolding held_def by presburger

lemma held_step_fill: "held n \<noteq> 15 \<Longrightarrow> held (Suc n) = Suc (held n)"
  by (auto simp: held_def mod_Suc split: if_splits)

lemma held_step_emit: "held n = 15 \<Longrightarrow> held (Suc n) = 14"
  by (auto simp: held_def mod_Suc split: if_splits)

lemma held_emit_iff: "held n = 15 \<longleftrightarrow> 15 \<le> n \<and> odd n"
  by (auto simp: held_def odd_iff_mod_2_eq_one split: if_splits)

lemma run_pushes_buf:
  assumes "audio_buf st = []" and "audio_buf_len st = 16"
  shows "audio_buf (snd (run_pushes fs st)) = drop (length fs - held (length fs)) fs"
proof (induction fs rule: rev_induct)
  case Nil
  show ?case using assms by simp
next
  case (snoc f fs)
  let ?n = "length fs"
  let ?st = "snd (run_pushes fs st)"
  have len: "audio_buf_len ?st = 16"
    using assms by (simp add: run_pushes_buf_len)
  have buf: "audio_buf ?st = drop (?n - held ?n) fs"
    by (rule snoc.IH)
  have lbuf: "length (audio_buf ?st) = held ?n"
    using held_le [of ?n] by (simp add: buf)
  have step: "snd (run_pushes (fs @ [f]) st) = snd (push f ?st)"
    by (simp add: run_pushes_snoc split: prod.splits)
  show ?case
  proof (cases "held ?n = 15")
    case True
    then have h: "held (Suc ?n) = 14"
      by (rule held_step_emit)
    from True have n15: "15 \<le> ?n"
      by (simp add: held_emit_iff)
    have "audio_buf (snd (push f ?st)) = drop 2 (drop (?n - held ?n) fs @ [f])"
      using True len lbuf by (simp add: push_eq buf)
    also have "\<dots> = drop (Suc ?n - 14) (fs @ [f])"
    proof -
      have "Suc (Suc (?n - 15)) = ?n - 13"
        using n15 by simp
      then show ?thesis
        using True n15 by simp
    qed
    finally show ?thesis
      by (simp add: step h)
  next
    case False
    then have h: "held (Suc ?n) = Suc (held ?n)"
      by (rule held_step_fill)
    have "audio_buf (snd (push f ?st)) = drop (?n - held ?n) fs @ [f]"
      using False len lbuf by (simp add: push_eq buf)
    also have "\<dots> = drop (Suc ?n - Suc (held ?n)) (fs @ [f])"
      using held_le [of ?n] by simp
    finally show ?thesis
      by (simp add: step h)
  qed
qed

lemma run_pushes_nth:
  assumes "k < length fs"
  shows "fst (run_pushes fs st) ! k = fst (push (fs ! k) (snd (run_pushes (take k fs) st)))"
proof -
  have split: "fs = take k fs @ fs ! k # drop (Suc k) fs"
    using assms by (simp add: id_take_nth_drop)
  have lk: "length (fst (run_pushes (take k fs) st)) = k"
    using assms by (simp add: run_pushes_length)
  have "fst (run_pushes (take k fs @ fs ! k # drop (Suc k) fs) st) ! k
          = fst (push (fs ! k) (snd (run_pushes (take k fs) st)))"
    using lk by (auto simp: run_pushes_append nth_append split: prod.splits)
  with split show ?thesis by simp
qed

lemma emits_iff:
  assumes "audio_buf st = []" and "audio_buf_len st = 16" and "k < length fs"
  shows "fst (run_pushes fs st) ! k \<noteq> None \<longleftrightarrow> 15 \<le> k \<and> odd k"
proof -
  let ?st = "snd (run_pushes (take k fs) st)"
  have "length (audio_buf ?st) = held k"
    using assms held_le [of k] by (simp add: run_pushes_buf)
  moreover have "audio_buf_len ?st = 16"
    using assms by (simp add: run_pushes_buf_len)
  ultimately have "fst (push (fs ! k) ?st) \<noteq> None \<longleftrightarrow> held k = 15"
    by (simp add: push_eq)
  then show ?thesis
    using assms by (simp add: run_pushes_nth held_emit_iff)
qed



lemma primed_eq: "snd (run_pushes (map chunk [0 ..< 15]) listening) = primed"
  by (simp add: primed_def listening_def fresh_def init_def add_listener_def push_def
      upt_rec numeral_eq_Suc)

lemma held_saturated: "16 \<le> n \<Longrightarrow> held n = (if even n then 14 else 15)"
  by (auto simp: held_def odd_iff_mod_2_eq_one)

lemma run_pushes_held:
  assumes "audio_buf st = []" and "audio_buf_len st = 16"
  shows "length (audio_buf (snd (run_pushes fs st))) = held (length fs)"
  using assms held_le [of "length fs"] by (simp add: run_pushes_buf)

lemma window_frames:
  assumes "k < length fs" and "15 \<le> k"
  shows "drop (k - 15) (take k fs) @ [fs ! k] = take 16 (drop (k - 15) fs)"
proof -
  have "drop (k - 15) (take k fs) @ [fs ! k] = drop (k - 15) (take k fs @ [fs ! k])"
    using assms by simp
  also have "take k fs @ [fs ! k] = take (Suc k) fs"
    using assms by (simp add: take_Suc_conv_app_nth)
  also have "drop (k - 15) (take (Suc k) fs) = take (Suc k - (k - 15)) (drop (k - 15) fs)"
    by (simp add: drop_take)
  also have "Suc k - (k - 15) = 16"
    using assms by simp
  finally show ?thesis .
qed

lemma emitted_window:
  assumes "audio_buf st = []" and "audio_buf_len st = 16"
    and "k < length fs" and "15 \<le> k" and "odd k"
  shows "fst (run_pushes fs st) ! k = Some (concat (take 16 (drop (k - 15) fs)))"
proof -
  let ?st = "snd (run_pushes (take k fs) st)"
  have h: "held k = 15"
    using assms by (simp add: held_emit_iff)
  have buf: "audio_buf ?st = drop (k - 15) (take k fs)"
    using assms h by (simp add: run_pushes_buf)
  have len: "audio_buf_len ?st = 16"
    using assms by (simp add: run_pushes_buf_len)
  have "length (audio_buf ?st) = 15"
    using assms by (simp add: buf)
  then have "fst (push (fs ! k) ?st) = Some (concat (audio_buf ?st @ [fs ! k]))"
    using len by (simp add: push_eq)
  also have "audio_buf ?st @ [fs ! k] = take 16 (drop (k - 15) fs)"
    unfolding buf using assms(3,4) by (rule window_frames)
  finally show ?thesis
    using assms by (simp add: run_pushes_nth)
qed

lemma take_2:
  assumes "2 \<le> length ys"
  shows "take 2 ys = [ys ! 0, ys ! 1]"
proof (cases ys)
  case Nil
  with assms show ?thesis by simp
next
  case (Cons a zs)
  with assms show ?thesis
    by (cases zs) (simp_all add: numeral_2_eq_2)
qed

lemma take_18:
  assumes "18 \<le> length xs"
  shows "take 18 xs = take 16 xs @ [xs ! 16, xs ! 17]"
proof -
  have "take 18 xs = take 16 xs @ take 2 (drop 16 xs)"
    using take_add [of 16 2 xs] by simp
  moreover have "take 2 (drop 16 xs) = [drop 16 xs ! 0, drop 16 xs ! 1]"
    using assms by (intro take_2) simp
  moreover have "drop 16 xs ! 0 = xs ! 16" and "drop 16 xs ! 1 = xs ! 17"
    using assms by simp_all
  ultimately show ?thesis
    by (simp only:)
qed

lemma window18:
  assumes "15 \<le> k" and "k + 2 < length fs"
  shows "take 18 (drop (k - 15) fs) =
           take 16 (drop (k - 15) fs) @ [fs ! (k + 1), fs ! (k + 2)]"
proof -
  let ?xs = "drop (k - 15) fs"
  have lx: "18 \<le> length ?xs"
    using assms by simp
  have "take 18 ?xs = take 16 ?xs @ [?xs ! 16, ?xs ! 17]"
    using lx by (rule take_18)
  moreover have "?xs ! 16 = fs ! (k + 1)" and "?xs ! 17 = fs ! (k + 2)"
    using assms by simp_all
  ultimately show ?thesis
    by simp
qed

lemma next_window_frames:
  assumes "15 \<le> k" and "k + 2 < length fs"
  shows "take 16 (drop (k - 13) fs) =
           drop 2 (take 16 (drop (k - 15) fs)) @ [fs ! (k + 1), fs ! (k + 2)]"
proof -
  let ?xs = "drop (k - 15) fs"
  have lx: "18 \<le> length ?xs"
    using assms by simp
  have "k - 13 = 2 + (k - 15)"
    using assms by simp
  then have d: "drop (k - 13) fs = drop 2 ?xs"
    by (simp only: drop_drop)
  have "take 16 (drop 2 ?xs) = drop 2 (take 18 ?xs)"
    by (simp add: drop_take)
  also have "\<dots> = drop 2 (take 16 ?xs) @ [fs ! (k + 1), fs ! (k + 2)]"
    using lx by (simp add: window18 [OF assms])
  finally show ?thesis
    by (simp only: d)
qed

lemma shared_frames:
  assumes "distinct (a @ m @ b)"
  shows "card (set (a @ m) \<inter> set (m @ b)) = length m"
proof -
  have "set (a @ m) \<inter> set (m @ b) = set m"
    using assms by auto
  moreover have "distinct m"
    using assms by simp
  ultimately show ?thesis
    by (simp add: distinct_card)
qed

lemma consecutive_windows_card:
  assumes "15 \<le> k" and "k + 2 < length fs" and "distinct fs"
  shows "card (set (take 16 (drop (k - 15) fs)) \<inter> set (take 16 (drop (k - 13) fs))) = 14"
proof -
  let ?w = "take 16 (drop (k - 15) fs)"
  let ?b = "[fs ! (k + 1), fs ! (k + 2)]"
  have nx: "take 16 (drop (k - 13) fs) = drop 2 ?w @ ?b"
    using assms(1,2) by (rule next_window_frames)
  have "take 18 (drop (k - 15) fs) = ?w @ ?b"
    using assms(1,2) by (rule window18)
  moreover have "distinct (take 18 (drop (k - 15) fs))"
    using assms by simp
  ultimately have "distinct (?w @ ?b)"
    by simp
  then have "distinct (take 2 ?w @ drop 2 ?w @ ?b)"
    by (simp only: append_assoc [symmetric] append_take_drop_id)
  then have "card (set (take 2 ?w @ drop 2 ?w) \<inter> set (drop 2 ?w @ ?b)) = length (drop 2 ?w)"
    by (rule shared_frames)
  moreover have "length (drop 2 ?w) = 14"
    using assms by simp
  ultimately show ?thesis
    by (simp only: nx append_take_drop_id)
qed

lemma buffer_after_emission:
  assumes "audio_buf st = []" and "audio_buf_len st = 16"
    and "k < length fs" and "15 \<le> k" and "odd k"
  shows "audio_buf (snd (run_pushes (take (Suc k) fs) st))
           = drop 2 (take 16 (drop (k - 15) fs))"
proof -
  have h: "held (Suc k) = 14"
    using assms by (simp add: held_step_emit held_emit_iff)
  have "audio_buf (snd (run_pushes (take (Suc k) fs) st))
          = drop (Suc k - 14) (take (Suc k) fs)"
    using assms h by (simp add: run_pushes_buf min_absorb2)
  also have "\<dots> = take 14 (drop (k - 13) fs)"
  proof -
    have "Suc k - 14 = k - 13" and "Suc k - (k - 13) = 14"
      using assms by simp_all
    then show ?thesis by (simp add: drop_take)
  qed
  also have "\<dots> = drop 2 (take 16 (drop (k - 15) fs))"
  proof -
    have "k - 13 = 2 + (k - 15)"
      using assms by simp
    then show ?thesis by (simp add: drop_take)
  qed
  finally show ?thesis .
qed

lemma run_fresh_17:
  "map (\<lambda>w. w \<noteq> None) (fst (run_pushes (map chunk [0 ..< 17]) fresh))
     = replicate 15 False @ [True, False]"
  by (simp add: fresh_def init_def push_def upt_rec numeral_eq_Suc)

lemma run_fresh_18:
  "fst (run_pushes (map chunk [0 ..< 18]) fresh) ! 15 = Some (concat (map chunk [0 ..< 16]))"
  by (simp add: fresh_def init_def push_def upt_rec numeral_eq_Suc)

lemma distinct_chunks_18: "distinct (map chunk [0 ..< 18])"
  by code_simp

subsection \<open>The overlap buffer: when windows are emitted\<close>

text \<open>
  Claim C1, as the code has it. Into a buffer that starts empty with depth 16, no
  window is emitted by any of the first 15 pushes; the 16th push emits one; from then
  on a window is emitted by every second push, that is, by exactly the even-numbered
  pushes 16, 18, 20 and so on, and by no odd-numbered push. Push number \<open>k + 1\<close> is
  the element \<open>k\<close> of the outcomes.
\<close>

theorem windows_at_even_pushes_from_16:
  assumes "audio_buf st = []" and "audio_buf_len st = 16" and "k < length fs"
  shows "fst (run_pushes fs st) ! k \<noteq> None \<longleftrightarrow> 16 \<le> Suc k \<and> even (Suc k)"
  using emits_iff [OF assms] by simp

text \<open>Eighteen chunks into a fresh client: the 16th push emits, the 17th does not.\<close>

theorem windows_at_even_pushes_from_16_witness:
  "audio_buf fresh = [] \<and> audio_buf_len fresh = 16
   \<and> 15 < length (map chunk [0 ..< 18]) \<and> 16 < length (map chunk [0 ..< 18])
   \<and> fst (run_pushes (map chunk [0 ..< 18]) fresh) ! 15 \<noteq> None
   \<and> fst (run_pushes (map chunk [0 ..< 18]) fresh) ! 16 = None"
proof -
  have a: "audio_buf fresh = []" and b: "audio_buf_len fresh = 16"
    by (simp_all add: fresh_def init_def)
  have c: "15 < length (map chunk [0 ..< 18])" and d: "16 < length (map chunk [0 ..< 18])"
    by simp_all
  show ?thesis
    using windows_at_even_pushes_from_16 [OF a b c] windows_at_even_pushes_from_16 [OF a b d]
      a b by simp
qed

text \<open>
  The 17th push is a push after the 16th, and it emits nothing: of seventeen pushes
  only the 16th emits.
\<close>

theorem no_window_at_push_17:
  "fst (run_pushes (map chunk [0 ..< 17]) fresh) ! 15 \<noteq> None
   \<and> fst (run_pushes (map chunk [0 ..< 17]) fresh) ! 16 = None"
proof -
  have "map (\<lambda>w. w \<noteq> None) (fst (run_pushes (map chunk [0 ..< 17]) fresh)) ! 15 = True"
    and "map (\<lambda>w. w \<noteq> None) (fst (run_pushes (map chunk [0 ..< 17]) fresh)) ! 16 = False"
    by (simp_all only: run_fresh_17) (simp_all add: nth_append)
  then show ?thesis
    by (simp add: run_pushes_length)
qed

subsection \<open>The overlap buffer: its length once saturated\<close>

text \<open>
  Claim C2, as the code has it. Once at least 16 chunks have been pushed into a
  buffer that started empty with depth 16, the buffer holds 14 chunks after every
  even-numbered push and 15 after every odd-numbered one. An even-numbered push emits
  and leaves the buffer one chunk shorter than it found it; an odd-numbered push does
  not emit and leaves it one chunk longer.
\<close>

theorem saturated_buffer_length:
  assumes "audio_buf st = []" and "audio_buf_len st = 16" and "16 \<le> length fs"
  shows "length (audio_buf (snd (run_pushes fs st))) = (if even (length fs) then 14 else 15)
         \<and> length (audio_buf (snd (run_pushes (fs @ [f]) st)))
             = (if even (length fs)
                then length (audio_buf (snd (run_pushes fs st))) + 1
                else length (audio_buf (snd (run_pushes fs st))) - 1)"
proof -
  have "length (audio_buf (snd (run_pushes fs st))) = held (length fs)"
    using assms(1,2) by (rule run_pushes_held)
  moreover have "length (audio_buf (snd (run_pushes (fs @ [f]) st))) = held (length (fs @ [f]))"
    using assms(1,2) by (rule run_pushes_held)
  moreover have "held (length fs) = (if even (length fs) then 14 else 15)"
    using assms(3) by (rule held_saturated)
  moreover have "held (length (fs @ [f])) = (if even (length fs) then 15 else 14)"
    using assms(3) by (simp add: held_saturated)
  ultimately show ?thesis
    by simp
qed

text \<open>After 16 and after 17 chunks into a fresh client.\<close>

theorem saturated_buffer_length_witness:
  "audio_buf fresh = [] \<and> audio_buf_len fresh = 16 \<and> 16 \<le> length (map chunk [0 ..< 16])
   \<and> length (audio_buf (snd (run_pushes (map chunk [0 ..< 16]) fresh))) = 14
   \<and> length (audio_buf (snd (run_pushes (map chunk [0 ..< 16] @ [chunk 16]) fresh))) = 15"
proof -
  have a: "audio_buf fresh = []" and b: "audio_buf_len fresh = 16"
    by (simp_all add: fresh_def init_def)
  have c: "16 \<le> length (map chunk [0 ..< 16])"
    by simp
  show ?thesis
    using saturated_buffer_length [OF a b c, of "chunk 16"] a b by simp
qed

text \<open>After the 16th push the buffer holds 14 chunks, which is neither 15 nor 16.\<close>

theorem buffer_length_after_16_pushes:
  "length (audio_buf (snd (run_pushes (map chunk [0 ..< 16]) fresh))) = 14"
  by (simp add: fresh_def init_def push_def upt_rec numeral_eq_Suc)

subsection \<open>The overlap buffer: what a window holds\<close>

text \<open>
  Claim C5. Whatever was pushed before into a buffer that started empty with depth
  16, a window emitted by a push is the concatenation, oldest first, of the chunks
  the buffer holds at that moment: those it held before the push followed by the chunk
  just pushed. These are exactly the 16 most recently pushed chunks, so no chunk
  retired by an earlier emission is in it.
\<close>

theorem window_is_buffer_at_emission:
  assumes "audio_buf st = []" and "audio_buf_len st = 16" and "k < length fs"
    and "fst (run_pushes fs st) ! k = Some w"
  shows "w = concat (audio_buf (snd (run_pushes (take k fs) st)) @ [fs ! k])
         \<and> audio_buf (snd (run_pushes (take k fs) st)) @ [fs ! k] = take 16 (drop (k - 15) fs)
         \<and> 15 \<le> k"
proof -
  have e: "15 \<le> k \<and> odd k"
    using emits_iff [OF assms(1,2,3)] assms(4) by simp
  then have h: "held k = 15"
    by (simp add: held_emit_iff)
  have "audio_buf (snd (run_pushes (take k fs) st)) = drop (k - 15) (take k fs)"
    using assms(1,2,3) h by (simp add: run_pushes_buf)
  then have buf: "audio_buf (snd (run_pushes (take k fs) st)) @ [fs ! k]
                    = take 16 (drop (k - 15) fs)"
    using window_frames [of k fs] assms(3) e by simp
  have "fst (run_pushes fs st) ! k = Some (concat (take 16 (drop (k - 15) fs)))"
    using assms(1,2,3) e by (simp add: emitted_window)
  with assms(4) have "w = concat (take 16 (drop (k - 15) fs))"
    by simp
  with buf e show ?thesis
    by simp
qed

text \<open>The window of the 16th push into a fresh client is the first sixteen chunks.\<close>

theorem window_is_buffer_at_emission_witness:
  "audio_buf fresh = [] \<and> audio_buf_len fresh = 16 \<and> 15 < length (map chunk [0 ..< 18])
   \<and> fst (run_pushes (map chunk [0 ..< 18]) fresh) ! 15 = Some (concat (map chunk [0 ..< 16]))
   \<and> concat (map chunk [0 ..< 16])
       = concat (audio_buf (snd (run_pushes (take 15 (map chunk [0 ..< 18])) fresh))
                 @ [map chunk [0 ..< 18] ! 15])"
proof -
  have a: "audio_buf fresh = []" and b: "audio_buf_len fresh = 16"
    by (simp_all add: fresh_def init_def)
  have c: "15 < length (map chunk [0 ..< 18])"
    by simp
  show ?thesis
    using window_is_buffer_at_emission [OF a b c run_fresh_18] a b c run_fresh_18
    by (simp only:)
qed

subsection \<open>The overlap buffer: consecutive windows\<close>

text \<open>
  Claim C4. Take a window emitted by a push into a buffer that started empty with
  depth 16, and let two more chunks follow. The emission retires exactly the two
  oldest chunks of the window: the buffer is left with its other 14. The next push
  emits nothing, and the push after it emits the next window, which is those 14 chunks
  followed by the two chunks that arrived since. So the two windows overlap in exactly
  14 chunks, and when all pushed chunks differ they have exactly 14 chunks in common.
\<close>

theorem consecutive_windows_share_14:
  assumes "audio_buf st = []" and "audio_buf_len st = 16" and "k + 2 < length fs"
    and "fst (run_pushes fs st) ! k = Some w"
  shows "w = concat (take 16 (drop (k - 15) fs))
         \<and> audio_buf (snd (run_pushes (take (Suc k) fs) st))
             = drop 2 (take 16 (drop (k - 15) fs))
         \<and> length (drop 2 (take 16 (drop (k - 15) fs))) = 14
         \<and> fst (run_pushes fs st) ! (k + 1) = None
         \<and> fst (run_pushes fs st) ! (k + 2) = Some (concat (take 16 (drop (k - 13) fs)))
         \<and> take 16 (drop (k - 13) fs)
             = drop 2 (take 16 (drop (k - 15) fs)) @ [fs ! (k + 1), fs ! (k + 2)]
         \<and> (distinct fs \<longrightarrow>
              card (set (take 16 (drop (k - 15) fs)) \<inter> set (take 16 (drop (k - 13) fs))) = 14)"
proof -
  have k: "k < length fs" and k1: "k + 1 < length fs"
    using assms(3) by simp_all
  have e: "15 \<le> k" "odd k"
    using emits_iff [OF assms(1,2) k] assms(4) by simp_all
  have "fst (run_pushes fs st) ! k = Some (concat (take 16 (drop (k - 15) fs)))"
    using assms(1,2) k e by (rule emitted_window)
  with assms(4) have w: "w = concat (take 16 (drop (k - 15) fs))"
    by simp
  have buf: "audio_buf (snd (run_pushes (take (Suc k) fs) st))
               = drop 2 (take 16 (drop (k - 15) fs))"
    using assms(1,2) k e by (rule buffer_after_emission)
  have len: "length (drop 2 (take 16 (drop (k - 15) fs))) = 14"
    using assms(3) e(1) by simp
  have none: "fst (run_pushes fs st) ! (k + 1) = None"
    using emits_iff [OF assms(1,2) k1] e(2) by simp
  have "fst (run_pushes fs st) ! (k + 2) = Some (concat (take 16 (drop (k + 2 - 15) fs)))"
    using assms(1,2,3) e by (intro emitted_window) simp_all
  moreover have "k + 2 - 15 = k - 13"
    using e(1) by simp
  ultimately have nxt:
    "fst (run_pushes fs st) ! (k + 2) = Some (concat (take 16 (drop (k - 13) fs)))"
    by simp
  have fr: "take 16 (drop (k - 13) fs)
              = drop 2 (take 16 (drop (k - 15) fs)) @ [fs ! (k + 1), fs ! (k + 2)]"
    using e(1) assms(3) by (rule next_window_frames)
  have cd: "distinct fs \<longrightarrow>
              card (set (take 16 (drop (k - 15) fs)) \<inter> set (take 16 (drop (k - 13) fs))) = 14"
    by (rule impI) (rule consecutive_windows_card [OF e(1) assms(3)])
  show ?thesis
    by (intro conjI) (rule w buf len none nxt fr cd)+
qed

text \<open>Eighteen different chunks into a fresh client: the windows of pushes 16 and 18.\<close>

theorem consecutive_windows_share_14_witness:
  "audio_buf fresh = [] \<and> audio_buf_len fresh = 16 \<and> 15 + 2 < length (map chunk [0 ..< 18])
   \<and> fst (run_pushes (map chunk [0 ..< 18]) fresh) ! 15 = Some (concat (map chunk [0 ..< 16]))
   \<and> distinct (map chunk [0 ..< 18])
   \<and> fst (run_pushes (map chunk [0 ..< 18]) fresh) ! (15 + 1) = None
   \<and> fst (run_pushes (map chunk [0 ..< 18]) fresh) ! (15 + 2)
       = Some (concat (take 16 (drop (15 - 13) (map chunk [0 ..< 18]))))
   \<and> card (set (take 16 (drop (15 - 15) (map chunk [0 ..< 18])))
            \<inter> set (take 16 (drop (15 - 13) (map chunk [0 ..< 18])))) = 14"
proof -
  have a: "audio_buf fresh = []" and b: "audio_buf_len fresh = 16"
    by (simp_all add: fresh_def init_def)
  have c: "15 + 2 < length (map chunk [0 ..< 18])"
    by simp
  note r = consecutive_windows_share_14 [OF a b c run_fresh_18]
  note r3 = r [THEN conjunct2, THEN conjunct2, THEN conjunct2]
  note none = r3 [THEN conjunct1]
  note nxt = r3 [THEN conjunct2, THEN conjunct1]
  note cd = r3 [THEN conjunct2, THEN conjunct2, THEN conjunct2, THEN mp, OF distinct_chunks_18]
  show ?thesis
    by (intro conjI) (rule a b c run_fresh_18 distinct_chunks_18 none nxt cd)+
qed

subsection \<open>The normalizer\<close>

lemma uint_cat16:
  "uint (word_cat (hi :: byte) (lo :: byte) :: 16 word) = uint lo + 256 * uint hi"
proof -
  have lo: "0 \<le> uint lo" "uint lo < 256"
    using uint_lt2p [of lo] by simp_all
  have hi: "0 \<le> uint hi" "uint hi < 256"
    using uint_lt2p [of hi] by simp_all
  have "uint (word_cat hi lo :: 16 word) = take_bit 16 (concat_bit 8 (uint lo) (uint hi))"
    by (simp add: word_cat_eq' uint_word_of_int_eq)
  also have "concat_bit 8 (uint lo) (uint hi) = uint lo + 256 * uint hi"
    using lo by (simp add: concat_bit_eq take_bit_int_eq_self push_bit_eq_mult)
  also have "take_bit 16 (uint lo + 256 * uint hi) = uint lo + 256 * uint hi"
    using lo hi by (simp add: take_bit_int_eq_self)
  finally show ?thesis .
qed

lemma sint16: "sint (w :: 16 word) = (if uint w < 32768 then uint w else uint w - 65536)"
proof -
  have b: "0 \<le> uint w" "uint w < 65536"
    using uint_lt2p [of w] by simp_all
  have s: "sint w = (uint w + 32768) mod 65536 - 32768"
    by (simp add: sint_uint signed_take_bit_eq_take_bit_shift take_bit_eq_mod)
  show ?thesis
  proof (cases "uint w < 32768")
    case True
    then have "(uint w + 32768) mod 65536 = uint w + 32768"
      using b by (intro mod_pos_pos_trivial) simp_all
    with True s show ?thesis by simp
  next
    case False
    have "(uint w + 32768) mod 65536 = (uint w + 32768 - 65536) mod 65536"
      by (simp only: minus_mod_self2)
    also have "\<dots> = uint w + 32768 - 65536"
      using False b by (intro mod_pos_pos_trivial) simp_all
    finally show ?thesis
      using False s by simp
  qed
qed

lemma sint_cat16:
  "sint (word_cat (hi :: byte) (lo :: byte) :: 16 word) =
     (let u = uint lo + 256 * uint hi in if u < 32768 then u else u - 65536)"
  by (simp add: sint16 uint_cat16 Let_def)

lemma int16_pairs_length: "length (int16_pairs bs) = length bs div 2"
  by (induction bs rule: int16_pairs.induct) simp_all

lemma int16_pairs_nth:
  "i < length bs div 2 \<Longrightarrow> int16_pairs bs ! i = word_cat (bs ! (2 * i + 1)) (bs ! (2 * i))"
proof (induction bs arbitrary: i rule: int16_pairs.induct)
  case (1 lo hi bs)
  show ?case
  proof (cases i)
    case 0
    show ?thesis unfolding 0 by simp
  next
    case (Suc j)
    have "j < length bs div 2"
      using "1.prems" Suc by simp
    then have "int16_pairs bs ! j = word_cat (bs ! (2 * j + 1)) (bs ! (2 * j))"
      by (rule "1.IH")
    then show ?thesis
      unfolding Suc by simp
  qed
qed simp_all

lemma int16_pairs_replicate:
  "int16_pairs (concat (replicate n [lo, hi])) = replicate n (word_cat hi lo)"
  by (induction n) simp_all

lemma normalize_audio_even:
  assumes "even (length bs)"
  shows "normalize_audio st bs =
           Inr (map (\<lambda>x. real_of_int (sint x) / real_of_int (audio_float_size st))
                  (int16_pairs bs))"
  using assms by (simp add: normalize_audio_def frombuffer_int16_def)

lemma normalize_audio_odd:
  assumes "odd (length bs)"
  shows "normalize_audio st bs =
           Inl (ValueError ''buffer size must be a multiple of element size'')"
  using assms by (simp add: normalize_audio_def frombuffer_int16_def odd_iff_mod_2_eq_one)

lemma sint_max: "sint (word_cat (0x7F :: byte) (0xFF :: byte) :: 16 word) = 32767"
  by code_simp

lemma sint_min: "sint (word_cat (0x80 :: byte) (0x00 :: byte) :: 16 word) = - 32768"
  by code_simp

text \<open>
  Claim C3. \<open>_normalize_audio\<close> is a function of the bytes and the divisor alone. With
  the divisor 32767 of every client: an even number of bytes yields one sample for
  each pair of bytes, namely the pair read as a two's-complement 16-bit number with the
  low byte first, divided by 32767 (an odd number of bytes raises \<open>ValueError\<close>); a
  window whose samples are all 32767 yields a signal of all 1; a window whose samples
  are all -32768 yields a signal of all -32768/32767, which is -1.0000305 to seven
  decimal places.
\<close>

theorem normalize_audio_int16_le_scaled:
  assumes "audio_float_size st = 32767"
  shows "(even (length bs) \<longrightarrow>
            normalize_audio st bs =
              Inr (map (\<lambda>i. real_of_int
                            (let u = uint (bs ! (2 * i)) + 256 * uint (bs ! (2 * i + 1))
                             in if u < 32768 then u else u - 65536) / 32767)
                     [0 ..< length bs div 2]))
         \<and> (odd (length bs) \<longrightarrow> (\<exists>m. normalize_audio st bs = Inl (ValueError m)))
         \<and> normalize_audio st (concat (replicate n [0xFF, 0x7F])) = Inr (replicate n 1)
         \<and> normalize_audio st (concat (replicate n [0x00, 0x80]))
             = Inr (replicate n (- 32768 / 32767))
         \<and> \<bar>- 32768 / 32767 - (- 10000305 / 10000000 :: real)\<bar> < 5 / 10 ^ 8"
proof -
  have ev: "even (length bs) \<longrightarrow>
            normalize_audio st bs =
              Inr (map (\<lambda>i. real_of_int
                            (let u = uint (bs ! (2 * i)) + 256 * uint (bs ! (2 * i + 1))
                             in if u < 32768 then u else u - 65536) / 32767)
                     [0 ..< length bs div 2])"
  proof
    assume e: "even (length bs)"
    have "map (\<lambda>x. real_of_int (sint x) / real_of_int (audio_float_size st)) (int16_pairs bs)
            = map (\<lambda>i. real_of_int
                          (let u = uint (bs ! (2 * i)) + 256 * uint (bs ! (2 * i + 1))
                           in if u < 32768 then u else u - 65536) / 32767)
                [0 ..< length bs div 2]"
      by (rule nth_equalityI)
        (simp_all add: int16_pairs_length int16_pairs_nth sint_cat16 assms del: of_int_sint)
    then show "normalize_audio st bs =
              Inr (map (\<lambda>i. real_of_int
                            (let u = uint (bs ! (2 * i)) + 256 * uint (bs ! (2 * i + 1))
                             in if u < 32768 then u else u - 65536) / 32767)
                     [0 ..< length bs div 2])"
      using e by (simp only: normalize_audio_even)
  qed
  have od: "odd (length bs) \<longrightarrow> (\<exists>m. normalize_audio st bs = Inl (ValueError m))"
    by (simp add: normalize_audio_odd)
  have mx: "normalize_audio st (concat (replicate n [0xFF, 0x7F])) = Inr (replicate n 1)"
    using assms
    by (simp add: normalize_audio_even length_concat sum_list_replicate
        int16_pairs_replicate sint_max del: of_int_sint)
  have mn: "normalize_audio st (concat (replicate n [0x00, 0x80]))
              = Inr (replicate n (- 32768 / 32767))"
    using assms
    by (simp add: normalize_audio_even length_concat sum_list_replicate
        int16_pairs_replicate sint_min del: of_int_sint)
  have ap: "\<bar>- 32768 / 32767 - (- 10000305 / 10000000 :: real)\<bar> < 5 / 10 ^ 8"
    by simp
  show ?thesis
    by (intro conjI) (rule ev od mx mn ap)+
qed

text \<open>Two samples, the largest and the smallest, and a buffer of a single byte.\<close>

theorem normalize_audio_int16_le_scaled_witness:
  "audio_float_size fresh = 32767
   \<and> even (length [0xFF, 0x7F, 0x00, 0x80 :: byte])
   \<and> normalize_audio fresh [0xFF, 0x7F, 0x00, 0x80] = Inr [1, - 32768 / 32767]
   \<and> odd (length [0x01 :: byte])
   \<and> (\<exists>m. normalize_audio fresh [0x01] = Inl (ValueError m))"
proof -
  have a: "audio_float_size fresh = 32767"
    by (simp add: fresh_def init_def)
  have e: "even (length [0xFF, 0x7F, 0x00, 0x80 :: byte])"
    by simp
  have d: "[0 ..< length [0xFF, 0x7F, 0x00, 0x80 :: byte] div 2] = [0, 1]"
    by (simp add: upt_rec)
  have o: "odd (length [0x01 :: byte])"
    by simp
  note r = normalize_audio_int16_le_scaled [OF a, of "[0xFF, 0x7F, 0x00, 0x80]" 0]
  note q = normalize_audio_int16_le_scaled [OF a, of "[0x01]" 0]
  have "normalize_audio fresh [0xFF, 0x7F, 0x00, 0x80] = Inr [1, - 32768 / 32767]"
    using r [THEN conjunct1, THEN mp, OF e] unfolding d by simp
  moreover have "\<exists>m. normalize_audio fresh [0x01] = Inl (ValueError m)"
    using q [THEN conjunct2, THEN conjunct1, THEN mp, OF o] .
  ultimately show ?thesis
    using a e o by (simp only: simp_thms)
qed

subsection \<open>The frame callback\<close>

lemma opens_append: "opens (xs @ ys) = opens xs @ opens ys"
  by (induction xs rule: opens.induct) simp_all

lemma listener_calls_append:
  "listener_calls (xs @ ys) = listener_calls xs @ listener_calls ys"
  by (induction xs rule: listener_calls.induct) simp_all

lemma device_io_append: "device_io (xs @ ys) = device_io xs @ device_io ys"
  by (induction xs rule: device_io.induct) simp_all

lemma on_audio_fill:
  assumes "Suc (length (audio_buf st)) \<noteq> audio_buf_len st"
  shows "on_audio f st =
           (Inr (f, PaContinue), st\<lparr>last_data := In_data f, audio_buf := audio_buf st @ [f]\<rparr>)"
  using assms by (simp add: on_audio_def push_eq)

lemma on_audio_emit:
  assumes "Suc (length (audio_buf st)) = audio_buf_len st"
  shows "on_audio f st =
           (case detect (concat (audio_buf st @ [f]))
                   (st\<lparr>last_data := In_data f, audio_buf := drop 2 (audio_buf st @ [f])\<rparr>) of
              (Inl e, st2) \<Rightarrow> (Inl e, st2)
            | (Inr u, st2) \<Rightarrow> (Inr (f, PaContinue), st2))"
  using assms by (simp add: on_audio_def push_eq)

lemma call_listeners_buffer:
  "audio_buf (snd (call_listeners i ls eng st)) = audio_buf st
   \<and> audio_buf_len (snd (call_listeners i ls eng st)) = audio_buf_len st
   \<and> last_data (snd (call_listeners i ls eng st)) = last_data st"
  by (induction ls arbitrary: i st) (simp_all add: Let_def split: prod.splits sum.splits)

lemma detect_buffer:
  "audio_buf (snd (detect w st)) = audio_buf st
   \<and> audio_buf_len (snd (detect w st)) = audio_buf_len st
   \<and> last_data (snd (detect w st)) = last_data st"
  by (simp add: detect_def Let_def call_listeners_buffer
      split: prod.splits sum.splits option.splits)

text \<open>
  Whatever the engine and the listeners do, and whether or not they raise, the
  callback leaves the buffer as the push alone leaves it: the statements about
  sequences of pushes are statements about sequences of callbacks.
\<close>

lemma on_audio_buffer:
  "audio_buf (snd (on_audio f st)) = audio_buf (snd (push f st))
   \<and> audio_buf_len (snd (on_audio f st)) = audio_buf_len (snd (push f st))
   \<and> last_data (snd (on_audio f st)) = last_data (snd (push f st))"
proof (cases "Suc (length (audio_buf st)) = audio_buf_len st")
  case True
  let ?st1 = "st\<lparr>last_data := In_data f, audio_buf := drop 2 (audio_buf st @ [f])\<rparr>"
  let ?w = "concat (audio_buf st @ [f])"
  have "snd (on_audio f st) = snd (detect ?w ?st1)"
    using True by (simp add: on_audio_emit split: prod.splits sum.splits)
  moreover have "snd (push f st) = ?st1"
    using True by (simp add: push_eq)
  ultimately show ?thesis
    by (simp only: detect_buffer simp_thms)
next
  case False
  then show ?thesis
    by (simp add: on_audio_fill push_eq)
qed

lemma push_cong:
  assumes "audio_buf a = audio_buf b" and "audio_buf_len a = audio_buf_len b"
  shows "fst (push f a) = fst (push f b)
         \<and> audio_buf (snd (push f a)) = audio_buf (snd (push f b))
         \<and> audio_buf_len (snd (push f a)) = audio_buf_len (snd (push f b))"
  using assms by (simp add: push_eq)

text \<open>
  So a sequence of callbacks leaves the buffer as the same sequence of pushes does,
  from any two states that agree on the buffer and its depth.
\<close>

lemma run_audio_buffer:
  assumes "audio_buf a = audio_buf b" and "audio_buf_len a = audio_buf_len b"
  shows "audio_buf (run_audio fs a) = audio_buf (snd (run_pushes fs b))
         \<and> audio_buf_len (run_audio fs a) = audio_buf_len (snd (run_pushes fs b))"
  using assms
proof (induction fs arbitrary: a b)
  case Nil
  then show ?case by simp
next
  case (Cons f fs)
  have "audio_buf (snd (on_audio f a)) = audio_buf (snd (push f b))"
    using on_audio_buffer [of f a] push_cong [OF Cons.prems, of f] by simp
  moreover have "audio_buf_len (snd (on_audio f a)) = audio_buf_len (snd (push f b))"
    using on_audio_buffer [of f a] push_cong [OF Cons.prems, of f] by simp
  ultimately have
    "audio_buf (run_audio fs (snd (on_audio f a)))
       = audio_buf (snd (run_pushes fs (snd (push f b))))
     \<and> audio_buf_len (run_audio fs (snd (on_audio f a)))
       = audio_buf_len (snd (run_pushes fs (snd (push f b))))"
    by (rule Cons.IH)
  then show ?case
    by (simp only: run_audio.simps run_pushes_Cons snd_conv)
qed

subsection \<open>Detection and dispatch\<close>

lemma call_listeners_all:
  assumes "\<forall>lis \<in> set ls. \<forall>x. fst (lis (eng_sequence eng (eng_state eng)) x) = Inr ()"
  shows "fst (call_listeners i ls eng st) = Inr ()
         \<and> listener_calls (trace (snd (call_listeners i ls eng st)))
             = listener_calls (trace st)
               @ map (\<lambda>j. (j, eng_sequence eng (eng_state eng))) [i ..< i + length ls]"
  using assms
proof (induction ls arbitrary: i st)
  case Nil
  show ?case by simp
next
  case (Cons lis rest)
  let ?sq = "eng_sequence eng (eng_state eng)"
  let ?st1 = "st\<lparr>trace := trace st @ [Ev_listener i ?sq]\<rparr>"
  obtain r w where rw: "lis ?sq (world st) = (r, w)"
    by (cases "lis ?sq (world st)")
  have "fst (lis ?sq (world st)) = Inr ()"
    using Cons.prems by simp
  then have l: "lis ?sq (world st) = (Inr (), w)"
    using rw by simp
  let ?st2 = "?st1\<lparr>world := w\<rparr>"
  have step: "call_listeners i (lis # rest) eng st = call_listeners (Suc i) rest eng ?st2"
    by (simp add: Let_def l)
  have rest: "\<forall>lis \<in> set rest. \<forall>x. fst (lis ?sq x) = Inr ()"
    using Cons.prems by simp
  have ih: "fst (call_listeners (Suc i) rest eng ?st2) = Inr ()
            \<and> listener_calls (trace (snd (call_listeners (Suc i) rest eng ?st2)))
                = listener_calls (trace ?st2)
                  @ map (\<lambda>j. (j, ?sq)) [Suc i ..< Suc i + length rest]"
    using rest by (rule Cons.IH)
  have u: "[i ..< i + length (lis # rest)] = i # [Suc i ..< Suc i + length rest]"
    by (simp add: upt_rec)
  show ?case
    unfolding step u using ih by (simp add: listener_calls_append)
qed

lemma detect_positive:
  assumes "normalize_audio st w = Inr arr" and "engine st = Some eng"
    and "eng_infer eng arr (eng_state eng) = (Inr True, s)"
    and "lookup_words (ctx st) (eng_sequence eng s) = Inr ws"
  shows "detect w st =
           (case logging_info_end st of
              Some e \<Rightarrow>
                (Inl e, st\<lparr>trace := trace st @ [Ev_infer arr],
                            engine := Some (eng\<lparr>eng_state := s\<rparr>)\<rparr>)
            | None \<Rightarrow>
                call_listeners 0 (listeners st) (eng\<lparr>eng_state := s\<rparr>)
                  (st\<lparr>trace := trace st @ [Ev_infer arr],
                      engine := Some (eng\<lparr>eng_state := s\<rparr>)\<rparr>))"
  using assms by (simp add: detect_def Let_def logging_info_end_def)

lemma detect_negative:
  assumes "normalize_audio st w = Inr arr" and "engine st = Some eng"
    and "eng_infer eng arr (eng_state eng) = (Inr False, s)"
  shows "detect w st =
           (Inr (), st\<lparr>trace := trace st @ [Ev_infer arr],
                        engine := Some (eng\<lparr>eng_state := s\<rparr>)\<rparr>)"
  using assms by (simp add: detect_def Let_def)

lemma detect_infer_raises:
  assumes "normalize_audio st w = Inr arr" and "engine st = Some eng"
    and "eng_infer eng arr (eng_state eng) = (Inl e, s)"
  shows "detect w st =
           (Inl e, st\<lparr>trace := trace st @ [Ev_infer arr],
                       engine := Some (eng\<lparr>eng_state := s\<rparr>)\<rparr>)"
  using assms by (simp add: detect_def Let_def)

text \<open>
  With level INFO disabled, tokens that are all in the vocabulary and listeners that
  do not raise, a detection calls every listener once, in the order of
  \<open>self.listeners\<close>, each with the engine's sequence; without a detection no listener
  is called.
\<close>

lemma detect_dispatch:
  assumes "normalize_audio st w = Inr arr" and "engine st = Some eng"
    and "eng_infer eng arr (eng_state eng) = (Inr detected, s)"
    and "lookup_words (ctx st) (eng_sequence eng s) = Inr ws"
    and "\<not> info_enabled st"
    and "\<forall>lis \<in> set (listeners st). \<forall>x. fst (lis (eng_sequence eng s) x) = Inr ()"
  shows "fst (detect w st) = Inr ()
         \<and> listener_calls (trace (snd (detect w st)))
             = listener_calls (trace st)
               @ (if detected
                  then map (\<lambda>j. (j, eng_sequence eng s)) [0 ..< length (listeners st)]
                  else [])"
proof (cases detected)
  case True
  let ?eng = "eng\<lparr>eng_state := s\<rparr>"
  let ?st2 = "st\<lparr>trace := trace st @ [Ev_infer arr], engine := Some ?eng\<rparr>"
  have d: "detect w st = call_listeners 0 (listeners st) ?eng ?st2"
  proof -
    have i: "eng_infer eng arr (eng_state eng) = (Inr True, s)"
      using assms(3) True by simp
    show ?thesis
      using detect_positive [OF assms(1,2) i assms(4)] assms(5)
      by (simp add: logging_info_end_def)
  qed
  have "\<forall>lis \<in> set (listeners st). \<forall>x. fst (lis (eng_sequence ?eng (eng_state ?eng)) x) = Inr ()"
    using assms(6) by simp
  from call_listeners_all [OF this, of 0 ?st2] True show ?thesis
    unfolding d by (simp add: listener_calls_append)
next
  case False
  then show ?thesis
    using detect_negative [OF assms(1,2)] assms(3)
    by (simp add: listener_calls_append)
qed

lemma length_concat_chunks: "length (concat (map chunk xs)) = 2 * length xs"
  by (induction xs) (simp_all add: chunk_def)

lemma length_chunk: "length (chunk n) = 2"
  by (simp add: chunk_def)

lemma primed_emits: "Suc (length (audio_buf primed)) = audio_buf_len primed"
  by (simp add: primed_def listening_def fresh_def init_def add_listener_def)

lemma on_audio_primed:
  "fst (on_audio (chunk 15) primed) = Inr (chunk 15, PaContinue)
   \<and> listener_calls (trace (snd (on_audio (chunk 15) primed))) = [(0, [1, 0]), (1, [1, 0])]
   \<and> world (snd (on_audio (chunk 15) primed)) = [(0, [1, 0]), (1, [1, 0])]"
  unfolding on_audio_emit [OF primed_emits]
  by (simp add: detect_def normalize_audio_even length_concat_chunks length_chunk
      Let_def logging_info_end_def
      primed_def listening_def fresh_def init_def add_listener_def
      hey_engine_def hey_ctx_def recorder_def)

lemma on_audio_primed_deaf:
  "fst (on_audio (chunk 15) primed_deaf) = Inr (chunk 15, PaContinue)
   \<and> listener_calls (trace (snd (on_audio (chunk 15) primed_deaf))) = []
   \<and> world (snd (on_audio (chunk 15) primed_deaf)) = []"
proof -
  have e: "Suc (length (audio_buf primed_deaf)) = audio_buf_len primed_deaf"
    using primed_emits by (simp add: primed_deaf_def)
  show ?thesis
    unfolding on_audio_emit [OF e]
    by (simp add: detect_def normalize_audio_even length_concat_chunks length_chunk
      Let_def primed_deaf_def primed_def listening_def fresh_def init_def add_listener_def
      deaf_engine_def hey_engine_def)
qed

lemma normalize_audio_pushed:
  "normalize_audio (st\<lparr>last_data := a, audio_buf := b\<rparr>) w = normalize_audio st w"
  by (simp add: normalize_audio_def split: sum.splits)

lemma on_audio_dispatch:
  assumes "Suc (length (audio_buf st)) = audio_buf_len st"
    and "normalize_audio st (concat (audio_buf st @ [f])) = Inr arr"
    and "engine st = Some eng"
    and "eng_infer eng arr (eng_state eng) = (Inr detected, s)"
    and "lookup_words (ctx st) (eng_sequence eng s) = Inr ws"
    and "\<not> info_enabled st"
    and "\<forall>lis \<in> set (listeners st). \<forall>x. fst (lis (eng_sequence eng s) x) = Inr ()"
  shows "fst (on_audio f st) = Inr (f, PaContinue)
         \<and> listener_calls (trace (snd (on_audio f st)))
             = listener_calls (trace st)
               @ (if detected
                  then map (\<lambda>j. (j, eng_sequence eng s)) [0 ..< length (listeners st)]
                  else [])"
proof -
  let ?st1 = "st\<lparr>last_data := In_data f, audio_buf := drop 2 (audio_buf st @ [f])\<rparr>"
  let ?w = "concat (audio_buf st @ [f])"
  have n: "normalize_audio ?st1 ?w = Inr arr"
    using assms(2) by (simp only: normalize_audio_pushed)
  have dd: "fst (detect ?w ?st1) = Inr ()
        \<and> listener_calls (trace (snd (detect ?w ?st1)))
            = listener_calls (trace ?st1)
              @ (if detected
                 then map (\<lambda>j. (j, eng_sequence eng s)) [0 ..< length (listeners ?st1)]
                 else [])"
    using n _ assms(4) by (rule detect_dispatch) (use assms in simp_all)
  obtain r st2 where d: "detect ?w ?st1 = (r, st2)"
    by (cases "detect ?w ?st1")
  have r: "r = Inr ()"
    using dd unfolding d by simp
  have t: "listener_calls (trace st2)
             = listener_calls (trace st)
               @ (if detected
                  then map (\<lambda>j. (j, eng_sequence eng s)) [0 ..< length (listeners st)]
                  else [])"
    using dd unfolding d by simp
  have "on_audio f st = (Inr (f, PaContinue), st2)"
    unfolding on_audio_emit [OF assms(1)] d r by simp
  with t show ?thesis
    by simp
qed

text \<open>
  Claim C6 asks that a positive detection calls every registered listener exactly
  once, in registration order. The code does so when level INFO is disabled for the
  root logger (\<open>on_audio_dispatch\<close>). With level INFO enabled, the log call that
  precedes the loop over the listeners is given the keyword argument \<open>end\<close> and raises
  \<open>TypeError\<close>: the callback of a detecting engine raises, and neither of the two
  registered listeners is called.
\<close>

theorem detection_with_info_logging_calls_no_listener:
  "length (listeners primed_info) = 2
   \<and> fst (on_audio (chunk 15) primed_info)
       = Inl (TypeError ''_log() got an unexpected keyword argument end'')
   \<and> listener_calls (trace (snd (on_audio (chunk 15) primed_info))) = []
   \<and> world (snd (on_audio (chunk 15) primed_info)) = []"
proof -
  have e: "Suc (length (audio_buf primed_info)) = audio_buf_len primed_info"
    using primed_emits by (simp add: primed_info_def)
  show ?thesis
    unfolding on_audio_emit [OF e]
    by (simp add: detect_def normalize_audio_even length_concat_chunks length_chunk
      Let_def logging_info_end_def primed_info_def
      primed_def listening_def fresh_def init_def add_listener_def
      hey_engine_def hey_ctx_def recorder_def)
qed

subsection \<open>A failing inference\<close>

text \<open>
  Claim C9. In a callback that emits a window (the buffer of depth 16 held 15 chunks),
  the chunk is cached and the two oldest chunks are retired before the engine is
  called. When \<open>infer\<close> raises, the exception leaves the callback, the trace ends with
  that call of the engine, and the object keeps the mutation: the cache holds the new
  chunk, the buffer holds 14 chunks and differs from the buffer before the call.
\<close>

theorem infer_failure_keeps_buffer_mutation:
  assumes "audio_buf_len st = 16" and "length (audio_buf st) = 15"
    and "normalize_audio st (concat (audio_buf st @ [in_data])) = Inr arr"
    and "engine st = Some eng"
    and "eng_infer eng arr (eng_state eng) = (Inl e, s)"
  shows "fst (on_audio in_data st) = Inl e
         \<and> trace (snd (on_audio in_data st)) = trace st @ [Ev_infer arr]
         \<and> last_data (snd (on_audio in_data st)) = In_data in_data
         \<and> audio_buf (snd (on_audio in_data st)) = drop 2 (audio_buf st @ [in_data])
         \<and> length (audio_buf (snd (on_audio in_data st))) = 14
         \<and> audio_buf (snd (on_audio in_data st)) \<noteq> audio_buf st"
proof -
  let ?st1 = "st\<lparr>last_data := In_data in_data,
                  audio_buf := drop 2 (audio_buf st @ [in_data])\<rparr>"
  let ?w = "concat (audio_buf st @ [in_data])"
  have em: "Suc (length (audio_buf st)) = audio_buf_len st"
    using assms(1,2) by simp
  have n: "normalize_audio ?st1 ?w = Inr arr"
    using assms(3) by (simp only: normalize_audio_pushed)
  have g: "engine ?st1 = Some eng"
    using assms(4) by simp
  have d: "detect ?w ?st1 =
             (Inl e, ?st1\<lparr>trace := trace ?st1 @ [Ev_infer arr],
                          engine := Some (eng\<lparr>eng_state := s\<rparr>)\<rparr>)"
    using n g assms(5) by (rule detect_infer_raises)
  have o: "on_audio in_data st =
             (Inl e, ?st1\<lparr>trace := trace ?st1 @ [Ev_infer arr],
                          engine := Some (eng\<lparr>eng_state := s\<rparr>)\<rparr>)"
    unfolding on_audio_emit [OF em] d by simp
  have l: "length (drop 2 (audio_buf st @ [in_data])) = 14"
    using assms(2) by simp
  then have ne: "drop 2 (audio_buf st @ [in_data]) \<noteq> audio_buf st"
    using assms(2) by (metis numeral_eq_iff semiring_norm(89))
  show ?thesis
    unfolding o using l ne by simp
qed

text \<open>The primed client with the engine whose \<open>infer\<close> raises.\<close>

theorem infer_failure_keeps_buffer_mutation_witness:
  "audio_buf_len primed_broken = 16 \<and> length (audio_buf primed_broken) = 15
   \<and> normalize_audio primed_broken (concat (audio_buf primed_broken @ [chunk 15]))
       = Inr (map (\<lambda>x. real_of_int (sint x) / real_of_int (audio_float_size primed_broken))
                (int16_pairs (concat (audio_buf primed_broken @ [chunk 15]))))
   \<and> engine primed_broken = Some broken_engine
   \<and> eng_infer broken_engine
        (map (\<lambda>x. real_of_int (sint x) / real_of_int (audio_float_size primed_broken))
           (int16_pairs (concat (audio_buf primed_broken @ [chunk 15]))))
        (eng_state broken_engine) = (Inl (RuntimeError ''inference failed''), 0)
   \<and> fst (on_audio (chunk 15) primed_broken) = Inl (RuntimeError ''inference failed'')
   \<and> last_data (snd (on_audio (chunk 15) primed_broken)) = In_data (chunk 15)
   \<and> length (audio_buf (snd (on_audio (chunk 15) primed_broken))) = 14
   \<and> audio_buf (snd (on_audio (chunk 15) primed_broken)) \<noteq> audio_buf primed_broken"
proof -
  have a: "audio_buf_len primed_broken = 16"
    by (simp add: primed_broken_def primed_def listening_def fresh_def init_def
        add_listener_def)
  have b: "length (audio_buf primed_broken) = 15"
    by (simp add: primed_broken_def primed_def)
  have "even (length (concat (audio_buf primed_broken @ [chunk 15])))"
    by (simp add: primed_broken_def primed_def length_concat_chunks length_chunk)
  then have c: "normalize_audio primed_broken (concat (audio_buf primed_broken @ [chunk 15]))
       = Inr (map (\<lambda>x. real_of_int (sint x) / real_of_int (audio_float_size primed_broken))
                (int16_pairs (concat (audio_buf primed_broken @ [chunk 15]))))"
    by (rule normalize_audio_even)
  have d: "engine primed_broken = Some broken_engine"
    by (simp add: primed_broken_def)
  have e: "eng_infer broken_engine
        (map (\<lambda>x. real_of_int (sint x) / real_of_int (audio_float_size primed_broken))
           (int16_pairs (concat (audio_buf primed_broken @ [chunk 15]))))
        (eng_state broken_engine) = (Inl (RuntimeError ''inference failed''), 0)"
    by (simp add: broken_engine_def hey_engine_def)
  note r = infer_failure_keeps_buffer_mutation [OF a b c d e]
  note r2 = r [THEN conjunct2, THEN conjunct2]
  note r4 = r2 [THEN conjunct2, THEN conjunct2]
  show ?thesis
    by (intro conjI)
      (rule a b c d e r [THEN conjunct1] r2 [THEN conjunct1] r4 [THEN conjunct1]
         r4 [THEN conjunct2])+
qed

subsection \<open>The value the callback returns\<close>

text \<open>
  Claim C10. Whenever the frame callback returns, rather than raises, it returns the
  pair of the chunk it was given and \<open>paContinue\<close>, whatever the buffer held and whether
  or not the engine detected: it never returns \<open>paComplete\<close> or \<open>paAbort\<close>.
\<close>

theorem on_audio_returns_in_data_and_continue:
  assumes "fst (on_audio in_data st) = Inr r"
  shows "r = (in_data, PaContinue)"
proof (cases "Suc (length (audio_buf st)) = audio_buf_len st")
  case True
  show ?thesis
    using assms unfolding on_audio_emit [OF True]
    by (simp split: prod.splits sum.splits)
next
  case False
  then show ?thesis
    using assms by (simp add: on_audio_fill)
qed

text \<open>
  The first callback of a fresh client, which only fills the buffer, and the
  sixteenth, which detects and calls the listeners.
\<close>

theorem on_audio_returns_in_data_and_continue_witness:
  "fst (on_audio (chunk 0) fresh) = Inr (chunk 0, PaContinue)
   \<and> fst (on_audio (chunk 15) primed) = Inr (chunk 15, PaContinue)"
proof -
  have "Suc (length (audio_buf fresh)) \<noteq> audio_buf_len fresh"
    by (simp add: fresh_def init_def)
  then have a: "fst (on_audio (chunk 0) fresh) = Inr (chunk 0, PaContinue)"
    by (simp add: on_audio_fill)
  have b: "fst (on_audio (chunk 15) primed) = Inr (chunk 15, PaContinue)"
    by (rule on_audio_primed [THEN conjunct1])
  show ?thesis
    using on_audio_returns_in_data_and_continue [OF a]
      on_audio_returns_in_data_and_continue [OF b] a b
    by (simp only: simp_thms)
qed

subsection \<open>\<open>start\<close>\<close>

lemma choose_device_fst:
  "fst (choose_device pa xs c tr) =
     (case find (\<lambda>i. dev_name (get_device_info_by_index pa i) = ''pulse'') xs of
        None \<Rightarrow> c
      | Some i \<Rightarrow> i)"
  by (induction xs arbitrary: tr) (simp_all add: Let_def)

lemma choose_device_opens: "opens (snd (choose_device pa xs c tr)) = opens tr"
  by (induction xs arbitrary: tr) (simp_all add: Let_def opens_append)

lemma find_upt_None:
  assumes "\<forall>i<n. \<not> P i"
  shows "find P [0 ..< n] = None"
  using assms by (simp add: find_None_iff)

lemma find_upt_Some:
  assumes "i < n" and "P i"
  shows "\<exists>j. find P [0 ..< n] = Some j \<and> j \<le> i \<and> P j"
proof -
  have "find P [0 ..< n] \<noteq> None"
    using assms by (auto simp: find_None_iff)
  then obtain j where j: "find P [0 ..< n] = Some j"
    by auto
  then have "P j" and "\<forall>k<j. \<not> P k"
    by (auto simp: find_Some_iff)
  with assms j show ?thesis
    by (metis not_le)
qed

lemma start_unconfigured:
  assumes "engine st = None \<or> ctx st = None"
  shows "(\<exists>m. fst (start st) = Inl (AttributeError m)) \<and> snd (start st) = st"
  using assms by (auto simp: start_def)

lemma start_opens:
  assumes "engine st \<noteq> None" and "ctx st \<noteq> None"
  shows "opens (trace (snd (start st))) =
           opens (trace st)
           @ [\<lparr> sc_format = PaInt16, sc_channels = 1, sc_rate = 16000, sc_input = True,
                 sc_input_device_index =
                   fst (choose_device (audio st) [0 ..< get_device_count (audio st)] 0
                          (trace st @ [Ev_get_device_count])),
                 sc_frames_per_buffer = chunk_size st \<rparr>]"
  using assms
  by (simp add: start_def Let_def case_prod_beta opens_append choose_device_opens
      split: option.splits)

lemma start_outcome:
  assumes "engine st \<noteq> None" and "ctx st \<noteq> None"
    and "open_raises (audio st)
           \<lparr> sc_format = PaInt16, sc_channels = 1, sc_rate = 16000, sc_input = True,
              sc_input_device_index =
                fst (choose_device (audio st) [0 ..< get_device_count (audio st)] 0
                       (trace st @ [Ev_get_device_count])),
              sc_frames_per_buffer = chunk_size st \<rparr> = None"
  shows "fst (start st) = Inr ()
         \<and> stream (snd (start st)) =
             Some \<lparr> sc_format = PaInt16, sc_channels = 1, sc_rate = 16000, sc_input = True,
                     sc_input_device_index =
                       fst (choose_device (audio st) [0 ..< get_device_count (audio st)] 0
                              (trace st @ [Ev_get_device_count])),
                     sc_frames_per_buffer = chunk_size st \<rparr>"
proof -
  obtain eng cx where "engine st = Some eng" and "ctx st = Some cx"
    using assms(1,2) by auto
  then show ?thesis
    using assms(3) by (simp add: start_def Let_def case_prod_beta)
qed

text \<open>
  Claim C7. \<open>start\<close> raises the configuration error (an \<open>AttributeError\<close> with a
  message asking for the missing part) when the engine or the context is absent, and
  then leaves the client and the trace as they were: no device is counted or queried
  and no stream is opened. When both are present it goes on to open exactly one
  stream, and, unless opening raises, starts it and keeps it in \<open>self.stream\<close>.
\<close>

theorem start_requires_engine_and_context:
  "(engine st = None \<or> ctx st = None \<longrightarrow>
      (\<exists>m. fst (start st) = Inl (AttributeError m))
      \<and> snd (start st) = st
      \<and> device_io (trace (snd (start st))) = device_io (trace st))
   \<and> (engine st \<noteq> None \<and> ctx st \<noteq> None \<longrightarrow>
      (\<exists>cfg. opens (trace (snd (start st))) = opens (trace st) @ [cfg]
         \<and> (open_raises (audio st) cfg = None \<longrightarrow>
              fst (start st) = Inr () \<and> stream (snd (start st)) = Some cfg)))"
proof (intro conjI impI)
  assume a: "engine st = None \<or> ctx st = None"
  show "\<exists>m. fst (start st) = Inl (AttributeError m)"
    using start_unconfigured [OF a] by blast
  show "snd (start st) = st"
    using start_unconfigured [OF a] by blast
  then show "device_io (trace (snd (start st))) = device_io (trace st)"
    by simp
next
  assume b: "engine st \<noteq> None \<and> ctx st \<noteq> None"
  let ?cfg = "\<lparr> sc_format = PaInt16, sc_channels = 1, sc_rate = 16000, sc_input = True,
                 sc_input_device_index =
                   fst (choose_device (audio st) [0 ..< get_device_count (audio st)] 0
                          (trace st @ [Ev_get_device_count])),
                 sc_frames_per_buffer = chunk_size st \<rparr>"
  have o: "opens (trace (snd (start st))) = opens (trace st) @ [?cfg]"
    by (rule start_opens [OF b [THEN conjunct1] b [THEN conjunct2]])
  have i: "open_raises (audio st) ?cfg = None \<longrightarrow>
          fst (start st) = Inr () \<and> stream (snd (start st)) = Some ?cfg"
    by (rule impI) (rule start_outcome [OF b [THEN conjunct1] b [THEN conjunct2]])
  have "opens (trace (snd (start st))) = opens (trace st) @ [?cfg]
         \<and> (open_raises (audio st) ?cfg = None \<longrightarrow>
              fst (start st) = Inr () \<and> stream (snd (start st)) = Some ?cfg)"
    using o i by (rule conjI)
  then show "\<exists>cfg. opens (trace (snd (start st))) = opens (trace st) @ [cfg]
         \<and> (open_raises (audio st) cfg = None \<longrightarrow>
              fst (start st) = Inr () \<and> stream (snd (start st)) = Some cfg)"
    by (rule exI)
qed

text \<open>A client without engine and context, one without context, and a configured one.\<close>

theorem start_requires_engine_and_context_witness:
  "engine unconfigured = None
   \<and> (\<exists>m. fst (start unconfigured) = Inl (AttributeError m))
   \<and> snd (start unconfigured) = unconfigured
   \<and> engine no_context \<noteq> None \<and> ctx no_context = None
   \<and> (\<exists>m. fst (start no_context) = Inl (AttributeError m))
   \<and> device_io (trace (snd (start no_context))) = device_io (trace no_context)
   \<and> engine fresh \<noteq> None \<and> ctx fresh \<noteq> None
   \<and> (\<exists>cfg. opens (trace (snd (start fresh))) = opens (trace fresh) @ [cfg]
         \<and> open_raises (audio fresh) cfg = None
         \<and> fst (start fresh) = Inr () \<and> stream (snd (start fresh)) = Some cfg)"
proof -
  have u: "engine unconfigured = None"
    by (simp add: unconfigured_def init_def)
  have n: "engine no_context \<noteq> None" "ctx no_context = None"
    by (simp_all add: no_context_def init_def)
  have f: "engine fresh \<noteq> None" "ctx fresh \<noteq> None"
    by (simp_all add: fresh_def init_def)
  have p: "\<And>cfg. open_raises (audio fresh) cfg = None"
    by (simp add: fresh_def init_def three_devices_def)
  note ru = start_requires_engine_and_context [of unconfigured, THEN conjunct1, THEN mp,
      OF disjI1, OF u]
  note rn = start_requires_engine_and_context [of no_context, THEN conjunct1, THEN mp,
      OF disjI2, OF n(2)]
  note rf = start_requires_engine_and_context [of fresh, THEN conjunct2, THEN mp,
      OF conjI, OF f]
  from rf obtain cfg
    where c1: "opens (trace (snd (start fresh))) = opens (trace fresh) @ [cfg]"
      and c2: "open_raises (audio fresh) cfg = None \<longrightarrow>
                 fst (start fresh) = Inr () \<and> stream (snd (start fresh)) = Some cfg"
    by (elim exE conjE)
  have c3: "open_raises (audio fresh) cfg = None"
    by (rule p)
  note c4 = c2 [THEN mp, OF c3]
  have "opens (trace (snd (start fresh))) = opens (trace fresh) @ [cfg]
         \<and> open_raises (audio fresh) cfg = None
         \<and> fst (start fresh) = Inr () \<and> stream (snd (start fresh)) = Some cfg"
    by (intro conjI) (rule c1 c3 c4 [THEN conjunct1] c4 [THEN conjunct2])+
  then have ex: "\<exists>cfg. opens (trace (snd (start fresh))) = opens (trace fresh) @ [cfg]
         \<and> open_raises (audio fresh) cfg = None
         \<and> fst (start fresh) = Inr () \<and> stream (snd (start fresh)) = Some cfg"
    by (rule exI)
  show ?thesis
    by (intro conjI)
      (rule u n f ex ru [THEN conjunct1] ru [THEN conjunct2, THEN conjunct1]
         rn [THEN conjunct1] rn [THEN conjunct2, THEN conjunct2])+
qed

text \<open>
  Claim C8. With engine and context present, \<open>start\<close> opens one stream: format 16-bit
  signed PCM, one channel, 16000 Hz, input, \<open>chunk_size\<close> frames per buffer, on the
  device it chose among the devices the audio subsystem enumerates. The chosen index
  is 0 when no device is named pulse; otherwise it is the index of the first device
  named pulse.
\<close>

theorem start_opens_pulse_or_device_0:
  assumes "engine st \<noteq> None" and "ctx st \<noteq> None"
  shows "\<exists>idx.
           opens (trace (snd (start st))) =
             opens (trace st)
             @ [\<lparr> sc_format = PaInt16, sc_channels = 1, sc_rate = 16000, sc_input = True,
                   sc_input_device_index = idx, sc_frames_per_buffer = chunk_size st \<rparr>]
           \<and> ((\<forall>i < get_device_count (audio st).
                   dev_name (get_device_info_by_index (audio st) i) \<noteq> ''pulse'')
                \<longrightarrow> idx = 0)
           \<and> (\<forall>i < get_device_count (audio st).
                 dev_name (get_device_info_by_index (audio st) i) = ''pulse''
                 \<longrightarrow> idx \<le> i \<and> dev_name (get_device_info_by_index (audio st) idx) = ''pulse'')"
proof -
  let ?n = "get_device_count (audio st)"
  let ?P = "\<lambda>i. dev_name (get_device_info_by_index (audio st) i) = ''pulse''"
  let ?idx = "fst (choose_device (audio st) [0 ..< ?n] 0 (trace st @ [Ev_get_device_count]))"
  have i: "?idx = (case find ?P [0 ..< ?n] of None \<Rightarrow> 0 | Some i \<Rightarrow> i)"
    by (rule choose_device_fst)
  have o: "opens (trace (snd (start st))) =
             opens (trace st)
             @ [\<lparr> sc_format = PaInt16, sc_channels = 1, sc_rate = 16000, sc_input = True,
                   sc_input_device_index = ?idx, sc_frames_per_buffer = chunk_size st \<rparr>]"
    using assms by (rule start_opens)
  have z: "(\<forall>i < ?n. \<not> ?P i) \<longrightarrow> ?idx = 0"
  proof
    assume "\<forall>i < ?n. \<not> ?P i"
    then have "find ?P [0 ..< ?n] = None"
      by (rule find_upt_None)
    with i show "?idx = 0" by simp
  qed
  have f: "\<forall>i < ?n. ?P i \<longrightarrow> ?idx \<le> i \<and> ?P ?idx"
  proof (intro allI impI)
    fix k assume "k < ?n" and "?P k"
    then obtain j where "find ?P [0 ..< ?n] = Some j" and "j \<le> k" and "?P j"
      using find_upt_Some [of k ?n ?P] by blast
    with i show "?idx \<le> k \<and> ?P ?idx" by simp
  qed
  show ?thesis
    by (rule exI [of _ ?idx]) (intro conjI, (rule o z f)+)
qed

text \<open>
  Three devices of which the second and the third are named pulse: index 1. Two
  devices, none named pulse: index 0.
\<close>

theorem start_opens_pulse_or_device_0_witness:
  "engine fresh \<noteq> None \<and> ctx fresh \<noteq> None
   \<and> 1 < get_device_count (audio fresh)
   \<and> dev_name (get_device_info_by_index (audio fresh) 1) = ''pulse''
   \<and> opens (trace (snd (start fresh)))
       = [\<lparr> sc_format = PaInt16, sc_channels = 1, sc_rate = 16000, sc_input = True,
             sc_input_device_index = 1, sc_frames_per_buffer = 1 \<rparr>]
   \<and> engine fresh_plain \<noteq> None \<and> ctx fresh_plain \<noteq> None
   \<and> get_device_count (audio fresh_plain) = 2
   \<and> dev_name (get_device_info_by_index (audio fresh_plain) 0) \<noteq> ''pulse''
   \<and> dev_name (get_device_info_by_index (audio fresh_plain) 1) \<noteq> ''pulse''
   \<and> opens (trace (snd (start fresh_plain)))
       = [\<lparr> sc_format = PaInt16, sc_channels = 1, sc_rate = 16000, sc_input = True,
             sc_input_device_index = 0, sc_frames_per_buffer = 500 \<rparr>]"
proof -
  have f: "engine fresh \<noteq> None" "ctx fresh \<noteq> None"
    by (simp_all add: fresh_def init_def)
  have f1: "1 < get_device_count (audio fresh)"
    and f2: "dev_name (get_device_info_by_index (audio fresh) 1) = ''pulse''"
    and f3: "dev_name (get_device_info_by_index (audio fresh) 0) \<noteq> ''pulse''"
    and f4: "opens (trace fresh) = []" and f5: "chunk_size fresh = 1"
    by (simp_all add: fresh_def init_def three_devices_def)
  from start_opens_pulse_or_device_0 [OF f] obtain idx
    where o: "opens (trace (snd (start fresh))) =
                opens (trace fresh)
                @ [\<lparr> sc_format = PaInt16, sc_channels = 1, sc_rate = 16000, sc_input = True,
                      sc_input_device_index = idx, sc_frames_per_buffer = chunk_size fresh \<rparr>]"
      and p: "\<forall>i < get_device_count (audio fresh).
                dev_name (get_device_info_by_index (audio fresh) i) = ''pulse''
                \<longrightarrow> idx \<le> i \<and> dev_name (get_device_info_by_index (audio fresh) idx) = ''pulse''"
    by (elim exE conjE)
  have "idx \<le> 1 \<and> dev_name (get_device_info_by_index (audio fresh) idx) = ''pulse''"
    using p f1 f2 by (simp only:)
  then have "idx = 1"
    using f3 by (cases idx) auto
  with o f4 f5 have a: "opens (trace (snd (start fresh)))
       = [\<lparr> sc_format = PaInt16, sc_channels = 1, sc_rate = 16000, sc_input = True,
             sc_input_device_index = 1, sc_frames_per_buffer = 1 \<rparr>]"
    by simp
  have g: "engine fresh_plain \<noteq> None" "ctx fresh_plain \<noteq> None"
    by (simp_all add: fresh_plain_def init_def)
  have g1: "\<forall>i < get_device_count (audio fresh_plain).
              dev_name (get_device_info_by_index (audio fresh_plain) i) \<noteq> ''pulse''"
    and g4: "opens (trace fresh_plain) = []" and g5: "chunk_size fresh_plain = 500"
    and g6: "get_device_count (audio fresh_plain) = 2"
    and g7: "dev_name (get_device_info_by_index (audio fresh_plain) 0) \<noteq> ''pulse''"
    and g8: "dev_name (get_device_info_by_index (audio fresh_plain) 1) \<noteq> ''pulse''"
    by (simp_all add: fresh_plain_def init_def two_devices_def)
  from start_opens_pulse_or_device_0 [OF g] obtain jdx
    where o': "opens (trace (snd (start fresh_plain))) =
                opens (trace fresh_plain)
                @ [\<lparr> sc_format = PaInt16, sc_channels = 1, sc_rate = 16000, sc_input = True,
                      sc_input_device_index = jdx,
                      sc_frames_per_buffer = chunk_size fresh_plain \<rparr>]"
      and z: "(\<forall>i < get_device_count (audio fresh_plain).
                 dev_name (get_device_info_by_index (audio fresh_plain) i) \<noteq> ''pulse'')
              \<longrightarrow> jdx = 0"
    by (elim exE conjE)
  have "jdx = 0"
    using z g1 by (rule mp)
  with o' g4 g5 have b: "opens (trace (snd (start fresh_plain)))
       = [\<lparr> sc_format = PaInt16, sc_channels = 1, sc_rate = 16000, sc_input = True,
             sc_input_device_index = 0, sc_frames_per_buffer = 500 \<rparr>]"
    by simp
  show ?thesis
    by (intro conjI) (rule f f1 f2 a g g6 g7 g8 b)+
qed

end
